theory Spec2Isabelle
  imports Main
begin

section \<open>Common parts of the two programs\<close>

text \<open>
  Both C files define the macro \<^verbatim>\<open>#define ITERATIONS 100000\<close>. The programs below
  take the iteration count as a parameter \<open>N\<close>, so that statements about "ITERATIONS = N"
  can be made for every count; \<open>ITERATIONS\<close> is the configured value.
\<close>

definition ITERATIONS :: nat where
  "ITERATIONS = 100000"

text \<open>The two thread handles \<^verbatim>\<open>pthread_t t1, t2\<close> of \<^verbatim>\<open>main\<close>, and who takes a step.\<close>

datatype tid = T1 | T2

datatype actor = Main | Thread tid

text \<open>What \<^verbatim>\<open>printf\<close> writes for \<^verbatim>\<open>%d\<close> and \<^verbatim>\<open>%ld\<close>: the decimal digits, with a minus sign.\<close>

definition digit :: "nat \<Rightarrow> char" where
  "digit d = char_of (48 + d)"

fun dec_nat :: "nat \<Rightarrow> string" where
  "dec_nat n = (if n < 10 then [digit n] else dec_nat (n div 10) @ [digit (n mod 10)])"

definition dec :: "int \<Rightarrow> string" where
  "dec k = (if k < 0 then CHR ''-'' # dec_nat (nat (- k)) else dec_nat (nat k))"

definition nl :: string where
  "nl = [char_of (10 :: nat)]"

section \<open>peterson\_algorithm.c\<close>

subsection \<open>State\<close>

text \<open>
  Control points are named after the source lines. A thread that \<^verbatim>\<open>pthread_create\<close> has
  not started yet is at \<open>NotCreated\<close>; line 20 holds the initialisation, the test and
  the increment of the \<^verbatim>\<open>for\<close> loop; the condition of the \<^verbatim>\<open>while\<close> is two atomic
  loads (line 26, and line 27 only when the first load gave true, as \<^verbatim>\<open>&&\<close> evaluates).
\<close>

datatype pc =
    NotCreated
  | L17 | L18
  | L20_init | L20_test
  | L22 | L23
  | L26 | L27
  | L32 | L33 | L34
  | L38
  | L20_incr
  | Returned

datatype mpc = M50 | M51 | M52 | M54 | M55 | M58 | M59 | M62 | M64 | M71

text \<open>The two pointers \<^verbatim>\<open>&id0\<close> and \<^verbatim>\<open>&id1\<close> that \<^verbatim>\<open>main\<close> passes as \<^verbatim>\<open>arg\<close>.\<close>

datatype addr = Addr_id0 | Addr_id1

text \<open>The locals of \<^verbatim>\<open>peterson_process\<close>: \<^verbatim>\<open>arg\<close>, \<^verbatim>\<open>id\<close>, \<^verbatim>\<open>other\<close>, \<^verbatim>\<open>i\<close>, \<^verbatim>\<open>temp\<close>.\<close>

record thread =
  pc :: pc
  arg :: addr
  id_l :: int
  other_l :: int
  i_l :: int
  temp_l :: int

text \<open>
  The globals \<^verbatim>\<open>flag\<close>, \<^verbatim>\<open>turn\<close>, \<^verbatim>\<open>counter\<close>, the locals \<^verbatim>\<open>id0\<close>, \<^verbatim>\<open>id1\<close> of
  \<^verbatim>\<open>main\<close>, the control point of \<^verbatim>\<open>main\<close>, the two threads and the console.
  \<^verbatim>\<open>flag\<close> is indexed by the \<^verbatim>\<open>int\<close> a thread holds in \<^verbatim>\<open>id\<close> or \<^verbatim>\<open>other\<close>; lemma
  \<open>peterson_index_in_range\<close> shows that only the indices 0 and 1 are ever used.
  \<^verbatim>\<open>flag\<close> and \<^verbatim>\<open>turn\<close> are \<^verbatim>\<open>_Atomic\<close> and accessed with \<^verbatim>\<open>memory_order_seq_cst\<close>: every
  load and every store is one step of an interleaving. \<^verbatim>\<open>int\<close> and \<^verbatim>\<open>long\<close> values are
  \<open>int\<close>: lemma \<open>peterson_no_overflow\<close> bounds them by \<open>N\<close>.
\<close>

record state =
  flag :: "int \<Rightarrow> bool"
  turn :: int
  counter :: int
  id0 :: int
  id1 :: int
  mpc :: mpc
  thr :: "tid \<Rightarrow> thread"
  out :: "string list"

text \<open>
  The state when \<^verbatim>\<open>main\<close> reaches line 50: the globals as initialised at lines 11 to 13,
  \<^verbatim>\<open>id0 = 0\<close> and \<^verbatim>\<open>id1 = 1\<close> from line 48, no thread created. The locals of a thread
  that does not run yet hold anything: \<open>g\<close> gives them.
\<close>

definition init :: "(tid \<Rightarrow> thread) \<Rightarrow> state" where
  "init g = \<lparr> flag = (\<lambda>_. False), turn = 0, counter = 0, id0 = 0, id1 = 1, mpc = M50,
              thr = (\<lambda>t. (g t)\<lparr>pc := NotCreated\<rparr>), out = [] \<rparr>"

definition zero_thread :: thread where
  "zero_thread = \<lparr> pc = NotCreated, arg = Addr_id0, id_l = 0, other_l = 0, i_l = 0, temp_l = 0 \<rparr>"

definition init0 :: state where
  "init0 = init (\<lambda>_. zero_thread)"

subsection \<open>One step of a participant\<close>

definition deref :: "state \<Rightarrow> addr \<Rightarrow> int" where
  "deref s a = (case a of Addr_id0 \<Rightarrow> id0 s | Addr_id1 \<Rightarrow> id1 s)"

definition set_thr :: "tid \<Rightarrow> thread \<Rightarrow> state \<Rightarrow> state" where
  "set_thr t th s = s\<lparr>thr := (thr s)(t := th)\<rparr>"

text \<open>
  \<^verbatim>\<open>peterson_process\<close>, one line at a time. \<open>None\<close>: the thread cannot take a step (it
  is not created, or it has returned).
\<close>

definition peterson_process :: "nat \<Rightarrow> tid \<Rightarrow> state \<Rightarrow> state option" where
  "peterson_process N t s =
     (let th = thr s t in
      case pc th of
        NotCreated \<Rightarrow> None
      | L17 \<Rightarrow> Some (set_thr t (th\<lparr>id_l := deref s (arg th), pc := L18\<rparr>) s)
      | L18 \<Rightarrow> Some (set_thr t (th\<lparr>other_l := 1 - id_l th, pc := L20_init\<rparr>) s)
      | L20_init \<Rightarrow> Some (set_thr t (th\<lparr>i_l := 0, pc := L20_test\<rparr>) s)
      | L20_test \<Rightarrow>
          Some (set_thr t (th\<lparr>pc := (if i_l th < int N div 2 then L22 else Returned)\<rparr>) s)
      | L22 \<Rightarrow> Some (set_thr t (th\<lparr>pc := L23\<rparr>) (s\<lparr>flag := (flag s)(id_l th := True)\<rparr>))
      | L23 \<Rightarrow> Some (set_thr t (th\<lparr>pc := L26\<rparr>) (s\<lparr>turn := other_l th\<rparr>))
      | L26 \<Rightarrow> Some (set_thr t (th\<lparr>pc := (if flag s (other_l th) then L27 else L32)\<rparr>) s)
      | L27 \<Rightarrow> Some (set_thr t (th\<lparr>pc := (if turn s = other_l th then L26 else L32)\<rparr>) s)
      | L32 \<Rightarrow> Some (set_thr t (th\<lparr>temp_l := counter s, pc := L33\<rparr>) s)
      | L33 \<Rightarrow> Some (set_thr t (th\<lparr>temp_l := temp_l th + 1, pc := L34\<rparr>) s)
      | L34 \<Rightarrow> Some (set_thr t (th\<lparr>pc := L38\<rparr>) (s\<lparr>counter := temp_l th\<rparr>))
      | L38 \<Rightarrow> Some (set_thr t (th\<lparr>pc := L20_incr\<rparr>) (s\<lparr>flag := (flag s)(id_l th := False)\<rparr>))
      | L20_incr \<Rightarrow> Some (set_thr t (th\<lparr>i_l := i_l th + 1, pc := L20_test\<rparr>) s)
      | Returned \<Rightarrow> None)"

subsection \<open>One step of the harness\<close>

text \<open>Lines 64 to 69: what \<^verbatim>\<open>main\<close> prints for the value \<open>c\<close> of \<^verbatim>\<open>counter\<close>.\<close>

definition peterson_success :: "string list" where
  "peterson_success =
     [''MUTUAL EXCLUSION GUARANTEED - No lost updates'' @ nl,
      ''Peterson's algorithm prevents race conditions'' @ nl]"

definition peterson_verdict :: "nat \<Rightarrow> int \<Rightarrow> string list" where
  "peterson_verdict N c =
     (if c = int N then peterson_success
      else [''Unexpected result: '' @ dec c @ nl])"

definition create :: "tid \<Rightarrow> addr \<Rightarrow> state \<Rightarrow> state" where
  "create t a s = set_thr t ((thr s t)\<lparr>pc := L17, arg := a\<rparr>) s"

definition print :: "string \<Rightarrow> state \<Rightarrow> state" where
  "print l s = s\<lparr>out := out s @ [l]\<rparr>"

text \<open>
  \<^verbatim>\<open>main\<close>. \<^verbatim>\<open>pthread_join\<close> can take its step only when the thread has returned.
\<close>

definition peterson_main :: "nat \<Rightarrow> state \<Rightarrow> state option" where
  "peterson_main N s =
     (case mpc s of
        M50 \<Rightarrow> Some ((print (''=== Peterson's Algorithm Demonstration ==='' @ nl) s)\<lparr>mpc := M51\<rparr>)
      | M51 \<Rightarrow> Some ((print (''Expected final value: '' @ dec (int N) @ nl) s)\<lparr>mpc := M52\<rparr>)
      | M52 \<Rightarrow> Some ((print (''Starting threads with Peterson's mutual exclusion...'' @ nl @ nl) s)
                      \<lparr>mpc := M54\<rparr>)
      | M54 \<Rightarrow> Some ((create T1 Addr_id0 s)\<lparr>mpc := M55\<rparr>)
      | M55 \<Rightarrow> Some ((create T2 Addr_id1 s)\<lparr>mpc := M58\<rparr>)
      | M58 \<Rightarrow> (if pc (thr s T1) = Returned then Some (s\<lparr>mpc := M59\<rparr>) else None)
      | M59 \<Rightarrow> (if pc (thr s T2) = Returned then Some (s\<lparr>mpc := M62\<rparr>) else None)
      | M62 \<Rightarrow> Some ((print (''Actual final value: '' @ dec (counter s) @ nl) s)\<lparr>mpc := M64\<rparr>)
      | M64 \<Rightarrow> Some (s\<lparr>out := out s @ peterson_verdict N (counter s), mpc := M71\<rparr>)
      | M71 \<Rightarrow> None)"

subsection \<open>Executions\<close>

definition step :: "nat \<Rightarrow> actor \<Rightarrow> state \<Rightarrow> state option" where
  "step N a s = (case a of Main \<Rightarrow> peterson_main N s | Thread t \<Rightarrow> peterson_process N t s)"

text \<open>The states of all interleavings of the three actors.\<close>

inductive reachable :: "nat \<Rightarrow> state \<Rightarrow> bool" for N :: nat where
  reachable_init: "reachable N (init g)"
| reachable_step: "reachable N s \<Longrightarrow> step N a s = Some s' \<Longrightarrow> reachable N s'"

text \<open>
  Running a schedule: the actors take their steps in the order of the list; an actor
  that cannot take a step when its turn comes is passed over.
\<close>

definition step_or_skip :: "nat \<Rightarrow> state \<Rightarrow> actor \<Rightarrow> state" where
  "step_or_skip N s a = (case step N a s of None \<Rightarrow> s | Some s' \<Rightarrow> s')"

definition run :: "nat \<Rightarrow> actor list \<Rightarrow> state \<Rightarrow> state" where
  "run N sched s = foldl (step_or_skip N) s sched"


section \<open>race\_condition\_example.c\<close>

subsection \<open>State\<close>

text \<open>
  The baseline has the same shape without the protocol: \<^verbatim>\<open>increment_counter\<close> ignores
  its argument, reads \<^verbatim>\<open>counter\<close> (line 16), sleeps (line 19), adds one (line 22) and
  writes back (line 25). The C standard gives no meaning to the unsynchronised accesses;
  as the specification does, the model takes every load and every store of \<^verbatim>\<open>counter\<close>
  as one step of an interleaving. Lemma \<open>race_no_overflow\<close> bounds the \<^verbatim>\<open>int\<close> and
  \<^verbatim>\<open>long\<close> values by \<open>N\<close>.
\<close>

datatype race_pc =
    R_NotCreated
  | R11_init | R11_test
  | R16 | R19 | R22 | R25
  | R11_incr
  | R_Returned

datatype race_mpc = R34 | R35 | R36 | R39 | R40 | R43 | R44 | R47 | R49 | R56

record race_thread =
  race_pc :: race_pc
  race_i :: int
  race_temp :: int

record race_state =
  race_counter :: int
  race_mpc :: race_mpc
  race_thr :: "tid \<Rightarrow> race_thread"
  race_out :: "string list"

definition race_init :: "(tid \<Rightarrow> race_thread) \<Rightarrow> race_state" where
  "race_init g = \<lparr> race_counter = 0, race_mpc = R34,
                   race_thr = (\<lambda>t. (g t)\<lparr>race_pc := R_NotCreated\<rparr>), race_out = [] \<rparr>"

definition race_zero_thread :: race_thread where
  "race_zero_thread = \<lparr> race_pc = R_NotCreated, race_i = 0, race_temp = 0 \<rparr>"

definition race_init0 :: race_state where
  "race_init0 = race_init (\<lambda>_. race_zero_thread)"

subsection \<open>Steps\<close>

definition race_set_thr :: "tid \<Rightarrow> race_thread \<Rightarrow> race_state \<Rightarrow> race_state" where
  "race_set_thr t th s = s\<lparr>race_thr := (race_thr s)(t := th)\<rparr>"

definition increment_counter :: "nat \<Rightarrow> tid \<Rightarrow> race_state \<Rightarrow> race_state option" where
  "increment_counter N t s =
     (let th = race_thr s t in
      case race_pc th of
        R_NotCreated \<Rightarrow> None
      | R11_init \<Rightarrow> Some (race_set_thr t (th\<lparr>race_i := 0, race_pc := R11_test\<rparr>) s)
      | R11_test \<Rightarrow>
          Some (race_set_thr t
                  (th\<lparr>race_pc := (if race_i th < int N div 2 then R16 else R_Returned)\<rparr>) s)
      | R16 \<Rightarrow> Some (race_set_thr t (th\<lparr>race_temp := race_counter s, race_pc := R19\<rparr>) s)
      | R19 \<Rightarrow> Some (race_set_thr t (th\<lparr>race_pc := R22\<rparr>) s)
      | R22 \<Rightarrow> Some (race_set_thr t (th\<lparr>race_temp := race_temp th + 1, race_pc := R25\<rparr>) s)
      | R25 \<Rightarrow> Some (race_set_thr t (th\<lparr>race_pc := R11_incr\<rparr>)
                      (s\<lparr>race_counter := race_temp th\<rparr>))
      | R11_incr \<Rightarrow> Some (race_set_thr t (th\<lparr>race_i := race_i th + 1, race_pc := R11_test\<rparr>) s)
      | R_Returned \<Rightarrow> None)"

text \<open>Lines 49 to 54: what \<^verbatim>\<open>main\<close> prints for the value \<open>c\<close> of \<^verbatim>\<open>counter\<close>.\<close>

definition race_lost :: "int \<Rightarrow> string list" where
  "race_lost k =
     ['' RACE CONDITION DETECTED! Lost '' @ dec k @ '' updates'' @ nl,
      ''Reason: Both threads read same value before either writes'' @ nl]"

definition race_none :: "string list" where
  "race_none = [''No race detected this run (non-deterministic - try again)'' @ nl]"

definition race_verdict :: "nat \<Rightarrow> int \<Rightarrow> string list" where
  "race_verdict N c = (if c < int N then race_lost (int N - c) else race_none)"

definition race_create :: "tid \<Rightarrow> race_state \<Rightarrow> race_state" where
  "race_create t s = race_set_thr t ((race_thr s t)\<lparr>race_pc := R11_init\<rparr>) s"

definition race_print :: "string \<Rightarrow> race_state \<Rightarrow> race_state" where
  "race_print l s = s\<lparr>race_out := race_out s @ [l]\<rparr>"

definition race_main :: "nat \<Rightarrow> race_state \<Rightarrow> race_state option" where
  "race_main N s =
     (case race_mpc s of
        R34 \<Rightarrow> Some ((race_print (''=== Race Condition Demonstration ==='' @ nl) s)
                      \<lparr>race_mpc := R35\<rparr>)
      | R35 \<Rightarrow> Some ((race_print (''Expected final value: '' @ dec (int N) @ nl) s)
                      \<lparr>race_mpc := R36\<rparr>)
      | R36 \<Rightarrow> Some ((race_print (''Starting threads without synchronization...'' @ nl @ nl) s)
                      \<lparr>race_mpc := R39\<rparr>)
      | R39 \<Rightarrow> Some ((race_create T1 s)\<lparr>race_mpc := R40\<rparr>)
      | R40 \<Rightarrow> Some ((race_create T2 s)\<lparr>race_mpc := R43\<rparr>)
      | R43 \<Rightarrow> (if race_pc (race_thr s T1) = R_Returned then Some (s\<lparr>race_mpc := R44\<rparr>)
                else None)
      | R44 \<Rightarrow> (if race_pc (race_thr s T2) = R_Returned then Some (s\<lparr>race_mpc := R47\<rparr>)
                else None)
      | R47 \<Rightarrow> Some ((race_print (''Actual final value: '' @ dec (race_counter s) @ nl) s)
                      \<lparr>race_mpc := R49\<rparr>)
      | R49 \<Rightarrow> Some (s\<lparr>race_out := race_out s @ race_verdict N (race_counter s),
                       race_mpc := R56\<rparr>)
      | R56 \<Rightarrow> None)"

subsection \<open>Executions\<close>

definition race_step :: "nat \<Rightarrow> actor \<Rightarrow> race_state \<Rightarrow> race_state option" where
  "race_step N a s = (case a of Main \<Rightarrow> race_main N s | Thread t \<Rightarrow> increment_counter N t s)"

inductive race_reachable :: "nat \<Rightarrow> race_state \<Rightarrow> bool" for N :: nat where
  race_reachable_init: "race_reachable N (race_init g)"
| race_reachable_step:
    "race_reachable N s \<Longrightarrow> race_step N a s = Some s' \<Longrightarrow> race_reachable N s'"

definition race_step_or_skip :: "nat \<Rightarrow> race_state \<Rightarrow> actor \<Rightarrow> race_state" where
  "race_step_or_skip N s a = (case race_step N a s of None \<Rightarrow> s | Some s' \<Rightarrow> s')"

definition race_run :: "nat \<Rightarrow> actor list \<Rightarrow> race_state \<Rightarrow> race_state" where
  "race_run N sched s = foldl (race_step_or_skip N) s sched"


section \<open>Predicates on control points and states\<close>

subsection \<open>The protected program\<close>

text \<open>The identity and the argument that \<^verbatim>\<open>main\<close> gives to each thread (lines 54, 55).\<close>

definition tid_id :: "tid \<Rightarrow> int" where
  "tid_id t = (case t of T1 \<Rightarrow> 0 | T2 \<Rightarrow> 1)"

definition tid_arg :: "tid \<Rightarrow> addr" where
  "tid_arg t = (case t of T1 \<Rightarrow> Addr_id0 | T2 \<Rightarrow> Addr_id1)"

definition peer :: "tid \<Rightarrow> tid" where
  "peer t = (case t of T1 \<Rightarrow> T2 | T2 \<Rightarrow> T1)"

text \<open>From which control point on a local has been assigned.\<close>

fun has_id :: "pc \<Rightarrow> bool" where
  "has_id NotCreated = False"
| "has_id L17 = False"
| "has_id _ = True"

fun has_other :: "pc \<Rightarrow> bool" where
  "has_other NotCreated = False"
| "has_other L17 = False"
| "has_other L18 = False"
| "has_other _ = True"

fun has_i :: "pc \<Rightarrow> bool" where
  "has_i NotCreated = False"
| "has_i L17 = False"
| "has_i L18 = False"
| "has_i L20_init = False"
| "has_i _ = True"

text \<open>
  \<open>in_cs\<close>: the thread has left the \<^verbatim>\<open>while\<close> of lines 26 to 29 and has not yet stored
  \<^verbatim>\<open>false\<close> into its flag (it is about to execute line 32, 33, 34 or 38).
  \<open>contending\<close>: it has stored \<^verbatim>\<open>turn\<close> and not yet cleared its flag.
  \<open>interested\<close>: it has set its flag and not yet cleared it.
  \<open>in_body\<close>: it is inside the body of the \<^verbatim>\<open>for\<close> loop.
\<close>

fun in_cs :: "pc \<Rightarrow> bool" where
  "in_cs L32 = True"
| "in_cs L33 = True"
| "in_cs L34 = True"
| "in_cs L38 = True"
| "in_cs _ = False"

fun contending :: "pc \<Rightarrow> bool" where
  "contending L26 = True"
| "contending L27 = True"
| "contending p = in_cs p"

fun interested :: "pc \<Rightarrow> bool" where
  "interested L23 = True"
| "interested p = contending p"

fun in_body :: "pc \<Rightarrow> bool" where
  "in_body L22 = True"
| "in_body L20_incr = True"
| "in_body p = interested p"

text \<open>
  The increments a thread has completed: the iterations it has finished, and one more
  between the store of line 34 and the \<^verbatim>\<open>i++\<close> that follows.
\<close>

fun wrote :: "pc \<Rightarrow> int" where
  "wrote L38 = 1"
| "wrote L20_incr = 1"
| "wrote _ = 0"

definition completed :: "thread \<Rightarrow> int" where
  "completed th = (if has_i (pc th) then i_l th else 0) + wrote (pc th)"

text \<open>\<^verbatim>\<open>main\<close> has passed both \<^verbatim>\<open>pthread_join\<close> calls.\<close>

definition joined :: "state \<Rightarrow> bool" where
  "joined s = (mpc s = M62 \<or> mpc s = M64 \<or> mpc s = M71)"

text \<open>The parts of the invariant of the protected program.\<close>

definition main_inv :: "state \<Rightarrow> bool" where
  "main_inv s =
     ((mpc s \<in> {M50, M51, M52, M54} \<longleftrightarrow> pc (thr s T1) = NotCreated) \<and>
      (mpc s \<in> {M50, M51, M52, M54, M55} \<longleftrightarrow> pc (thr s T2) = NotCreated) \<and>
      (mpc s \<in> {M59, M62, M64, M71} \<longrightarrow> pc (thr s T1) = Returned) \<and>
      (mpc s \<in> {M62, M64, M71} \<longrightarrow> pc (thr s T2) = Returned))"

definition locals_ok :: "state \<Rightarrow> tid \<Rightarrow> bool" where
  "locals_ok s t =
     ((pc (thr s t) \<noteq> NotCreated \<longrightarrow> arg (thr s t) = tid_arg t) \<and>
      (has_id (pc (thr s t)) \<longrightarrow> id_l (thr s t) = tid_id t) \<and>
      (has_other (pc (thr s t)) \<longrightarrow> other_l (thr s t) = 1 - tid_id t))"

definition locals_inv :: "state \<Rightarrow> bool" where
  "locals_inv s = (id0 s = 0 \<and> id1 s = 1 \<and> locals_ok s T1 \<and> locals_ok s T2)"

definition loop_ok :: "nat \<Rightarrow> thread \<Rightarrow> bool" where
  "loop_ok N th =
     ((has_i (pc th) \<longrightarrow> 0 \<le> i_l th \<and> i_l th \<le> int N div 2) \<and>
      (in_body (pc th) \<longrightarrow> i_l th < int N div 2) \<and>
      (pc th = Returned \<longrightarrow> i_l th = int N div 2))"

definition loop_inv :: "nat \<Rightarrow> state \<Rightarrow> bool" where
  "loop_inv N s = (loop_ok N (thr s T1) \<and> loop_ok N (thr s T2))"

definition flag_inv :: "state \<Rightarrow> bool" where
  "flag_inv s =
     (flag s 0 = interested (pc (thr s T1)) \<and> flag s 1 = interested (pc (thr s T2)))"

definition turn_inv :: "state \<Rightarrow> bool" where
  "turn_inv s =
     ((turn s = 0 \<or> turn s = 1) \<and>
      (in_cs (pc (thr s T1)) \<and> contending (pc (thr s T2)) \<longrightarrow> turn s = 0) \<and>
      (in_cs (pc (thr s T2)) \<and> contending (pc (thr s T1)) \<longrightarrow> turn s = 1))"

definition temp_ok :: "state \<Rightarrow> thread \<Rightarrow> bool" where
  "temp_ok s th =
     ((pc th = L33 \<longrightarrow> temp_l th = counter s) \<and>
      (pc th = L34 \<longrightarrow> temp_l th = counter s + 1))"

definition counter_inv :: "state \<Rightarrow> bool" where
  "counter_inv s =
     (counter s = completed (thr s T1) + completed (thr s T2) \<and>
      temp_ok s (thr s T1) \<and> temp_ok s (thr s T2))"

definition inv :: "nat \<Rightarrow> state \<Rightarrow> bool" where
  "inv N s =
     (main_inv s \<and> locals_inv s \<and> loop_inv N s \<and> flag_inv s \<and> turn_inv s \<and> counter_inv s)"




subsection \<open>The baseline\<close>

fun race_has_i :: "race_pc \<Rightarrow> bool" where
  "race_has_i R_NotCreated = False"
| "race_has_i R11_init = False"
| "race_has_i _ = True"

fun race_in_body :: "race_pc \<Rightarrow> bool" where
  "race_in_body R16 = True"
| "race_in_body R19 = True"
| "race_in_body R22 = True"
| "race_in_body R25 = True"
| "race_in_body R11_incr = True"
| "race_in_body _ = False"

fun race_has_read :: "race_pc \<Rightarrow> bool" where
  "race_has_read R19 = True"
| "race_has_read R22 = True"
| "race_has_read _ = False"

text \<open>
  The write-backs a thread has completed: none before its loop starts, the iterations it
  has finished, and one more between the store of line 25 and the \<^verbatim>\<open>i++\<close> that follows.
\<close>

fun race_done :: "race_pc \<Rightarrow> int \<Rightarrow> int" where
  "race_done R_NotCreated k = 0"
| "race_done R11_init k = 0"
| "race_done R11_incr k = k + 1"
| "race_done _ k = k"

definition race_completed :: "race_thread \<Rightarrow> int" where
  "race_completed th = race_done (race_pc th) (race_i th)"

text \<open>The write-backs done so far by both threads together.\<close>

definition race_writes :: "race_state \<Rightarrow> int" where
  "race_writes s = race_completed (race_thr s T1) + race_completed (race_thr s T2)"

definition race_joined :: "race_state \<Rightarrow> bool" where
  "race_joined s = (race_mpc s = R47 \<or> race_mpc s = R49 \<or> race_mpc s = R56)"

definition race_main_inv :: "race_state \<Rightarrow> bool" where
  "race_main_inv s =
     ((race_mpc s \<in> {R34, R35, R36, R39} \<longleftrightarrow> race_pc (race_thr s T1) = R_NotCreated) \<and>
      (race_mpc s \<in> {R34, R35, R36, R39, R40} \<longleftrightarrow> race_pc (race_thr s T2) = R_NotCreated) \<and>
      (race_mpc s \<in> {R44, R47, R49, R56} \<longrightarrow> race_pc (race_thr s T1) = R_Returned) \<and>
      (race_mpc s \<in> {R47, R49, R56} \<longrightarrow> race_pc (race_thr s T2) = R_Returned))"

definition race_loop_ok :: "nat \<Rightarrow> race_thread \<Rightarrow> bool" where
  "race_loop_ok N th =
     ((race_has_i (race_pc th) \<longrightarrow> 0 \<le> race_i th \<and> race_i th \<le> int N div 2) \<and>
      (race_in_body (race_pc th) \<longrightarrow> race_i th < int N div 2) \<and>
      (race_pc th = R_Returned \<longrightarrow> race_i th = int N div 2))"

definition race_loop_inv :: "nat \<Rightarrow> race_state \<Rightarrow> bool" where
  "race_loop_inv N s = (race_loop_ok N (race_thr s T1) \<and> race_loop_ok N (race_thr s T2))"

definition race_temp_ok :: "race_state \<Rightarrow> race_thread \<Rightarrow> bool" where
  "race_temp_ok s th =
     ((race_has_read (race_pc th) \<longrightarrow> 0 \<le> race_temp th \<and> race_temp th \<le> race_writes s) \<and>
      (race_pc th = R25 \<longrightarrow> 1 \<le> race_temp th \<and> race_temp th \<le> race_writes s + 1))"

definition race_counter_inv :: "race_state \<Rightarrow> bool" where
  "race_counter_inv s =
     (0 \<le> race_counter s \<and> race_counter s \<le> race_writes s \<and>
      race_temp_ok s (race_thr s T1) \<and> race_temp_ok s (race_thr s T2))"

definition race_inv :: "nat \<Rightarrow> race_state \<Rightarrow> bool" where
  "race_inv N s = (race_main_inv s \<and> race_loop_inv N s \<and> race_counter_inv s)"




section \<open>Example schedules\<close>

text \<open>
  Schedules for \<open>N = 2\<close> (one iteration in each thread). The first five steps of \<^verbatim>\<open>main\<close>
  print the banner and create both threads.
\<close>

definition sched_start :: "actor list" where
  "sched_start = [Main, Main, Main, Main, Main]"

text \<open>Thread 1 has reached line 22, line 23, and line 38.\<close>

definition sched_at_entry :: "actor list" where
  "sched_at_entry = sched_start @ [Thread T1, Thread T1, Thread T1, Thread T1]"

definition sched_at_turn :: "actor list" where
  "sched_at_turn = sched_at_entry @ [Thread T1]"

definition sched_at_exit :: "actor list" where
  "sched_at_exit = sched_at_turn @ [Thread T1, Thread T1, Thread T1, Thread T1, Thread T1]"

text \<open>
  Both threads set their flags and store \<^verbatim>\<open>turn\<close>, thread 2 last; thread 1 then finds
  \<^verbatim>\<open>flag[1]\<close> set (\<open>sched_waiting\<close>: it is at line 27), reads \<^verbatim>\<open>turn\<close> and leaves the
  loop, while thread 2 goes round its loop once (\<open>sched_contended\<close>).
\<close>

definition sched_waiting :: "actor list" where
  "sched_waiting =
     sched_at_entry @ [Thread T2, Thread T2, Thread T2, Thread T2] @
     [Thread T1, Thread T2, Thread T1, Thread T2, Thread T1]"

definition sched_contended :: "actor list" where
  "sched_contended = sched_waiting @ [Thread T1, Thread T2, Thread T2]"

text \<open>
  Thread 1 enters alone, finding \<^verbatim>\<open>flag[1]\<close> clear; then thread 2 runs up to and
  including its store to \<^verbatim>\<open>flag[1]\<close>.
\<close>

definition sched_early :: "actor list" where
  "sched_early =
     sched_at_turn @ [Thread T1, Thread T1] @
     [Thread T2, Thread T2, Thread T2, Thread T2, Thread T2]"

text \<open>A complete run: thread 1 to its end, thread 2 to its end, \<^verbatim>\<open>main\<close> to its end.\<close>

definition sched_sequential :: "actor list" where
  "sched_sequential =
     sched_start @ replicate 13 (Thread T1) @ replicate 13 (Thread T2) @ [Main, Main, Main, Main]"

text \<open>
  The baseline: a complete sequential run, and a run in which both threads read
  \<^verbatim>\<open>counter\<close> before either writes it.
\<close>

definition race_sched_sequential :: "actor list" where
  "race_sched_sequential =
     sched_start @ replicate 9 (Thread T1) @ replicate 9 (Thread T2) @ [Main, Main, Main, Main]"

definition race_sched_lost :: "actor list" where
  "race_sched_lost =
     sched_start @ replicate 4 (Thread T1) @ replicate 4 (Thread T2) @
     replicate 5 (Thread T1) @ replicate 5 (Thread T2) @ [Main, Main, Main, Main]"

section \<open>The invariant of the protected program\<close>

lemmas step_defs = peterson_process_def peterson_main_def set_thr_def create_def print_def
  deref_def Let_def

lemmas id_defs = tid_id_def tid_arg_def peer_def

lemma contending_interested: "contending p \<Longrightarrow> interested p"
  by (cases p) simp_all

lemma in_cs_contending: "in_cs p \<Longrightarrow> contending p"
  by (cases p) simp_all

subsection \<open>Creation and joining\<close>

lemma main_inv_init: "main_inv (init g)"
  by (simp add: main_inv_def init_def)

lemma main_inv_main: "main_inv s \<Longrightarrow> peterson_main N s = Some s' \<Longrightarrow> main_inv s'"
  by (cases "mpc s"; clarsimp simp: main_inv_def step_defs split: if_split_asm)

lemma main_inv_thread: "main_inv s \<Longrightarrow> peterson_process N t s = Some s' \<Longrightarrow> main_inv s'"
  by (cases t; cases "pc (thr s t)"; clarsimp simp: main_inv_def step_defs)

subsection \<open>The locals \<^verbatim>\<open>arg\<close>, \<^verbatim>\<open>id\<close> and \<^verbatim>\<open>other\<close>\<close>

lemma locals_inv_init: "locals_inv (init g)"
  by (simp add: locals_inv_def locals_ok_def init_def)

lemma locals_inv_main:
  "locals_inv s \<Longrightarrow> main_inv s \<Longrightarrow> peterson_main N s = Some s' \<Longrightarrow> locals_inv s'"
  by (cases "mpc s";
      clarsimp simp: locals_inv_def locals_ok_def main_inv_def id_defs step_defs
        split: if_split_asm)

lemma locals_inv_thread:
  "locals_inv s \<Longrightarrow> peterson_process N t s = Some s' \<Longrightarrow> locals_inv s'"
  by (cases t; cases "pc (thr s t)";
      clarsimp simp: locals_inv_def locals_ok_def id_defs step_defs)

subsection \<open>The loop counter\<close>

lemma loop_inv_init: "loop_inv N (init g)"
  by (simp add: loop_inv_def loop_ok_def init_def)

lemma loop_inv_main:
  "loop_inv N s \<Longrightarrow> main_inv s \<Longrightarrow> peterson_main N s = Some s' \<Longrightarrow> loop_inv N s'"
  by (cases "mpc s";
      clarsimp simp: loop_inv_def loop_ok_def main_inv_def step_defs split: if_split_asm)

lemma loop_inv_thread:
  "loop_inv N s \<Longrightarrow> peterson_process N t s = Some s' \<Longrightarrow> loop_inv N s'"
  by (cases t; cases "pc (thr s t)"; clarsimp simp: loop_inv_def loop_ok_def step_defs)

subsection \<open>The flags\<close>

lemma flag_inv_init: "flag_inv (init g)"
  by (simp add: flag_inv_def init_def)

lemma flag_inv_main:
  "flag_inv s \<Longrightarrow> main_inv s \<Longrightarrow> peterson_main N s = Some s' \<Longrightarrow> flag_inv s'"
  by (cases "mpc s"; clarsimp simp: flag_inv_def main_inv_def step_defs split: if_split_asm)

lemma flag_inv_thread:
  "flag_inv s \<Longrightarrow> locals_inv s \<Longrightarrow> peterson_process N t s = Some s' \<Longrightarrow> flag_inv s'"
  by (cases t; cases "pc (thr s t)";
      clarsimp simp: flag_inv_def locals_inv_def locals_ok_def id_defs step_defs)

subsection \<open>The turn\<close>

lemma turn_inv_init: "turn_inv (init g)"
  by (simp add: turn_inv_def init_def)

lemma turn_inv_main:
  "turn_inv s \<Longrightarrow> main_inv s \<Longrightarrow> peterson_main N s = Some s' \<Longrightarrow> turn_inv s'"
  by (cases "mpc s"; clarsimp simp: turn_inv_def main_inv_def step_defs split: if_split_asm)

lemma turn_inv_thread:
  "turn_inv s \<Longrightarrow> flag_inv s \<Longrightarrow> locals_inv s \<Longrightarrow> peterson_process N t s = Some s'
   \<Longrightarrow> turn_inv s'"
  by (cases t; cases "pc (thr s t)";
      clarsimp simp: turn_inv_def flag_inv_def locals_inv_def locals_ok_def id_defs step_defs
        contending_interested in_cs_contending)

lemma turn_inv_excl: "turn_inv s \<Longrightarrow> \<not> (in_cs (pc (thr s T1)) \<and> in_cs (pc (thr s T2)))"
  by (auto simp: turn_inv_def dest: in_cs_contending)

subsection \<open>The counter\<close>

lemma counter_inv_init: "counter_inv (init g)"
  by (simp add: counter_inv_def temp_ok_def completed_def init_def)

lemma counter_inv_main:
  "counter_inv s \<Longrightarrow> main_inv s \<Longrightarrow> peterson_main N s = Some s' \<Longrightarrow> counter_inv s'"
  by (cases "mpc s";
      clarsimp simp: counter_inv_def temp_ok_def completed_def main_inv_def step_defs
        split: if_split_asm)

lemma counter_inv_thread:
  "counter_inv s \<Longrightarrow> \<not> (in_cs (pc (thr s T1)) \<and> in_cs (pc (thr s T2)))
   \<Longrightarrow> peterson_process N t s = Some s' \<Longrightarrow> counter_inv s'"
  by (cases t; cases "pc (thr s t)";
      clarsimp simp: counter_inv_def temp_ok_def completed_def step_defs;
      (cases "pc (thr s (peer t))"; simp add: peer_def))

subsection \<open>All reachable states\<close>

lemma inv_init: "inv N (init g)"
  by (simp add: inv_def main_inv_init locals_inv_init loop_inv_init flag_inv_init
      turn_inv_init counter_inv_init)

lemma inv_step:
  assumes "inv N s" and st: "step N a s = Some s'"
  shows "inv N s'"
proof -
  from assms(1) have m: "main_inv s" and l: "locals_inv s" and lp: "loop_inv N s"
    and f: "flag_inv s" and tu: "turn_inv s" and c: "counter_inv s"
    by (simp_all add: inv_def)
  show ?thesis
  proof (cases a)
    case Main
    with st have ms: "peterson_main N s = Some s'"
      by (simp add: step_def)
    show ?thesis
      unfolding inv_def
      using main_inv_main [OF m ms] locals_inv_main [OF l m ms] loop_inv_main [OF lp m ms]
        flag_inv_main [OF f m ms] turn_inv_main [OF tu m ms] counter_inv_main [OF c m ms]
      by simp
  next
    case (Thread t)
    with st have ts: "peterson_process N t s = Some s'"
      by (simp add: step_def)
    show ?thesis
      unfolding inv_def
      using main_inv_thread [OF m ts] locals_inv_thread [OF l ts] loop_inv_thread [OF lp ts]
        flag_inv_thread [OF f l ts] turn_inv_thread [OF tu f l ts]
        counter_inv_thread [OF c turn_inv_excl [OF tu] ts]
      by simp
  qed
qed

lemma reachable_inv: "reachable N s \<Longrightarrow> inv N s"
  by (induction rule: reachable.induct) (auto intro: inv_init inv_step)

subsection \<open>Schedules and reachable states\<close>

lemma step_or_skip_reachable: "reachable N s \<Longrightarrow> reachable N (step_or_skip N s a)"
  by (auto simp: step_or_skip_def split: option.splits intro: reachable_step)

lemma run_snoc: "run N (sched @ [a]) s = step_or_skip N (run N sched s) a"
  by (simp add: run_def)


lemma run_reachable: "reachable N s \<Longrightarrow> reachable N (run N sched s)"
  by (induction sched rule: rev_induct) (simp_all add: run_def step_or_skip_reachable)

lemma run_init_reachable: "reachable N (run N sched (init g))"
  by (rule run_reachable) (rule reachable_init)

lemma run_init0_reachable: "reachable N (run N sched init0)"
  unfolding init0_def by (rule run_init_reachable)

text \<open>Every reachable state is the end of a schedule.\<close>

lemma reachable_run: "reachable N s \<Longrightarrow> \<exists>g sched. s = run N sched (init g)"
proof (induction rule: reachable.induct)
  case (reachable_init g)
  have "init g = run N [] (init g)"
    by (simp add: run_def)
  then show ?case by blast
next
  case (reachable_step s a s')
  then obtain g sched where "s = run N sched (init g)"
    by blast
  with reachable_step.hyps(2) have "s' = run N (sched @ [a]) (init g)"
    by (simp add: run_snoc step_or_skip_def)
  then show ?case by blast
qed


text \<open>A created thread that has not returned can always take a step: nothing blocks it.\<close>

lemma peterson_process_None:
  "peterson_process N t s = None \<longleftrightarrow> pc (thr s t) = NotCreated \<or> pc (thr s t) = Returned"
  by (cases "pc (thr s t)") (simp_all add: peterson_process_def Let_def)

lemma reachable_excl:
  "reachable N s \<Longrightarrow> \<not> (in_cs (pc (thr s T1)) \<and> in_cs (pc (thr s T2)))"
  by (drule reachable_inv) (simp add: inv_def turn_inv_excl)

lemma reachable_locals: "reachable N s \<Longrightarrow> locals_ok s t"
  by (drule reachable_inv, cases t) (simp_all add: inv_def locals_inv_def)

lemma reachable_joined:
  "reachable N s \<Longrightarrow> joined s \<Longrightarrow> pc (thr s t) = Returned"
  by (drule reachable_inv, cases t) (auto simp: inv_def main_inv_def joined_def)

lemma returned_i: "reachable N s \<Longrightarrow> pc (thr s t) = Returned \<Longrightarrow> i_l (thr s t) = int N div 2"
  by (drule reachable_inv, cases t) (simp_all add: inv_def loop_inv_def loop_ok_def)

lemma joined_counter:
  assumes "reachable N s" and "joined s"
  shows "counter s = 2 * (int N div 2)"
proof -
  from assms have p: "pc (thr s T1) = Returned" "pc (thr s T2) = Returned"
    by (simp_all add: reachable_joined)
  with assms(1) have "i_l (thr s T1) = int N div 2" "i_l (thr s T2) = int N div 2"
    by (simp_all add: returned_i)
  moreover from assms(1) have "counter s = completed (thr s T1) + completed (thr s T2)"
    by (drule_tac reachable_inv) (simp add: inv_def counter_inv_def)
  ultimately show ?thesis
    using p by (simp add: completed_def)
qed

lemma reachable_turn: "reachable N s \<Longrightarrow> turn s = 0 \<or> turn s = 1"
  by (drule reachable_inv) (simp add: inv_def turn_inv_def)

lemma spin_round:
  assumes "pc (thr s t) = L26" and "flag s (other_l (thr s t))" and "turn s = other_l (thr s t)"
  shows "run N [Thread t, Thread t] s = s"
proof -
  from assms have "run N [Thread t, Thread t] s = s\<lparr>thr := (thr s)(t := (thr s t)\<lparr>pc := L26\<rparr>)\<rparr>"
    by (simp add: run_def step_or_skip_def step_def step_defs)
  also have "(thr s t)\<lparr>pc := L26\<rparr> = (thr s t)\<lparr>pc := pc (thr s t)\<rparr>"
    by (simp only: assms(1))
  also have "s\<lparr>thr := (thr s)(t := (thr s t)\<lparr>pc := pc (thr s t)\<rparr>)\<rparr> = s"
    by simp
  finally show ?thesis .
qed

subsection \<open>Ranges of the integers\<close>

text \<open>
  Only \<^verbatim>\<open>flag[0]\<close> and \<^verbatim>\<open>flag[1]\<close> are accessed, and no \<^verbatim>\<open>int\<close> or \<^verbatim>\<open>long\<close> leaves
  the range from 0 to \<open>N\<close>: for \<open>N\<close> an \<^verbatim>\<open>int\<close>, as the macro is, nothing wraps.
\<close>

lemma peterson_index_in_range:
  assumes "reachable N s"
  shows "(has_id (pc (thr s t)) \<longrightarrow> id_l (thr s t) = 0 \<or> id_l (thr s t) = 1) \<and>
         (has_other (pc (thr s t)) \<longrightarrow> other_l (thr s t) = 0 \<or> other_l (thr s t) = 1)"
  using reachable_locals [OF assms, of t]
  by (cases t) (simp_all add: locals_ok_def id_defs)

lemma completed_range: "loop_ok N th \<Longrightarrow> 0 \<le> completed th \<and> completed th \<le> int N div 2"
  by (cases "pc th") (simp_all add: loop_ok_def completed_def)

lemma peterson_no_overflow:
  assumes "reachable N s"
  shows "0 \<le> counter s \<and> counter s \<le> int N \<and>
         (has_i (pc (thr s t)) \<longrightarrow> 0 \<le> i_l (thr s t) \<and> i_l (thr s t) \<le> int N div 2) \<and>
         (pc (thr s t) = L20_incr \<longrightarrow> i_l (thr s t) + 1 \<le> int N div 2) \<and>
         (pc (thr s t) = L33 \<longrightarrow> 0 \<le> temp_l (thr s t) \<and> temp_l (thr s t) + 1 \<le> int N) \<and>
         (pc (thr s t) = L34 \<longrightarrow> 0 \<le> temp_l (thr s t) \<and> temp_l (thr s t) \<le> int N)"
proof -
  from reachable_inv [OF assms] have l: "loop_ok N (thr s T1)" "loop_ok N (thr s T2)"
    and c: "counter s = completed (thr s T1) + completed (thr s T2)"
    and tm: "temp_ok s (thr s T1)" "temp_ok s (thr s T2)"
    by (simp_all add: inv_def loop_inv_def counter_inv_def)
  from l have lt: "loop_ok N (thr s t)"
    by (cases t) simp_all
  from tm have tt: "temp_ok s (thr s t)"
    by (cases t) simp_all
  from reachable_excl [OF assms] have x: "\<not> (in_cs (pc (thr s T1)) \<and> in_cs (pc (thr s T2)))" .
  note r = completed_range [OF l(1)] completed_range [OF l(2)]
  have c0: "0 \<le> counter s" and cN: "counter s \<le> int N"
    using r c by linarith+
  have i: "has_i (pc (thr s t)) \<longrightarrow> 0 \<le> i_l (thr s t) \<and> i_l (thr s t) \<le> int N div 2"
    and j: "pc (thr s t) = L20_incr \<longrightarrow> i_l (thr s t) + 1 \<le> int N div 2"
    using lt by (auto simp: loop_ok_def)
  have w: "pc (thr s t) = L34 \<longrightarrow> counter s + 1 \<le> int N"
  proof
    assume p: "pc (thr s t) = L34"
    from lt p have "completed (thr s t) < int N div 2"
      by (simp add: loop_ok_def completed_def)
    with r c show "counter s + 1 \<le> int N"
      by (cases t; clarsimp; linarith)
  qed
  have v: "pc (thr s t) = L33 \<longrightarrow> counter s + 1 \<le> int N"
  proof
    assume p: "pc (thr s t) = L33"
    from lt p have "completed (thr s t) < int N div 2"
      by (simp add: loop_ok_def completed_def)
    with r c show "counter s + 1 \<le> int N"
      by (cases t; clarsimp; linarith)
  qed
  from c0 cN i j w v tt show ?thesis
    by (auto simp: temp_ok_def)
qed

subsection \<open>The console\<close>





subsection \<open>Counting the increments of a schedule\<close>






section \<open>The invariant of the baseline\<close>

lemmas race_step_defs = increment_counter_def race_main_def race_set_thr_def race_create_def
  race_print_def Let_def

lemma race_main_inv_init: "race_main_inv (race_init g)"
  by (simp add: race_main_inv_def race_init_def)

lemma race_main_inv_main: "race_main_inv s \<Longrightarrow> race_main N s = Some s' \<Longrightarrow> race_main_inv s'"
  by (cases "race_mpc s"; clarsimp simp: race_main_inv_def race_step_defs split: if_split_asm)

lemma race_main_inv_thread:
  "race_main_inv s \<Longrightarrow> increment_counter N t s = Some s' \<Longrightarrow> race_main_inv s'"
  by (cases t; cases "race_pc (race_thr s t)"; clarsimp simp: race_main_inv_def race_step_defs)

lemma race_loop_inv_init: "race_loop_inv N (race_init g)"
  by (simp add: race_loop_inv_def race_loop_ok_def race_init_def)

lemma race_loop_inv_main:
  "race_loop_inv N s \<Longrightarrow> race_main_inv s \<Longrightarrow> race_main N s = Some s' \<Longrightarrow> race_loop_inv N s'"
  by (cases "race_mpc s";
      clarsimp simp: race_loop_inv_def race_loop_ok_def race_main_inv_def race_step_defs
        split: if_split_asm)

lemma race_loop_inv_thread:
  "race_loop_inv N s \<Longrightarrow> increment_counter N t s = Some s' \<Longrightarrow> race_loop_inv N s'"
  by (cases t; cases "race_pc (race_thr s t)";
      clarsimp simp: race_loop_inv_def race_loop_ok_def race_step_defs)

lemma race_counter_inv_init: "race_counter_inv (race_init g)"
  by (simp add: race_counter_inv_def race_temp_ok_def race_writes_def race_completed_def
      race_init_def)

lemma race_counter_inv_main:
  "race_counter_inv s \<Longrightarrow> race_main_inv s \<Longrightarrow> race_main N s = Some s'
   \<Longrightarrow> race_counter_inv s'"
  by (cases "race_mpc s";
      clarsimp simp: race_counter_inv_def race_temp_ok_def race_writes_def race_completed_def
        race_main_inv_def race_step_defs split: if_split_asm)

lemma race_counter_inv_thread:
  "race_counter_inv s \<Longrightarrow> race_loop_inv N s \<Longrightarrow> increment_counter N t s = Some s'
   \<Longrightarrow> race_counter_inv s'"
  by (cases t; cases "race_pc (race_thr s t)";
      clarsimp simp: race_counter_inv_def race_temp_ok_def race_writes_def race_completed_def
        race_loop_inv_def race_loop_ok_def race_step_defs;
      (cases "race_pc (race_thr s (peer t))"; simp add: peer_def))

lemma race_inv_init: "race_inv N (race_init g)"
  by (simp add: race_inv_def race_main_inv_init race_loop_inv_init race_counter_inv_init)

lemma race_inv_step:
  assumes "race_inv N s" and st: "race_step N a s = Some s'"
  shows "race_inv N s'"
proof -
  from assms(1) have m: "race_main_inv s" and lp: "race_loop_inv N s"
    and c: "race_counter_inv s"
    by (simp_all add: race_inv_def)
  show ?thesis
  proof (cases a)
    case Main
    with st have ms: "race_main N s = Some s'"
      by (simp add: race_step_def)
    show ?thesis
      unfolding race_inv_def
      using race_main_inv_main [OF m ms] race_loop_inv_main [OF lp m ms]
        race_counter_inv_main [OF c m ms]
      by simp
  next
    case (Thread t)
    with st have ts: "increment_counter N t s = Some s'"
      by (simp add: race_step_def)
    show ?thesis
      unfolding race_inv_def
      using race_main_inv_thread [OF m ts] race_loop_inv_thread [OF lp ts]
        race_counter_inv_thread [OF c lp ts]
      by simp
  qed
qed

lemma race_reachable_inv: "race_reachable N s \<Longrightarrow> race_inv N s"
  by (induction rule: race_reachable.induct) (auto intro: race_inv_init race_inv_step)

lemma race_completed_le: "race_loop_ok N th \<Longrightarrow> race_completed th \<le> int N div 2"
  by (cases "race_pc th") (simp_all add: race_loop_ok_def race_completed_def)

lemma race_writes_le: "race_loop_inv N s \<Longrightarrow> race_writes s \<le> int N"
proof -
  assume "race_loop_inv N s"
  then have "race_completed (race_thr s T1) \<le> int N div 2"
    and "race_completed (race_thr s T2) \<le> int N div 2"
    by (simp_all add: race_loop_inv_def race_completed_le)
  then show ?thesis
    unfolding race_writes_def by linarith
qed

lemma race_step_or_skip_reachable:
  "race_reachable N s \<Longrightarrow> race_reachable N (race_step_or_skip N s a)"
  by (auto simp: race_step_or_skip_def split: option.splits intro: race_reachable_step)

lemma race_run_snoc: "race_run N (sched @ [a]) s = race_step_or_skip N (race_run N sched s) a"
  by (simp add: race_run_def)


lemma race_run_reachable: "race_reachable N s \<Longrightarrow> race_reachable N (race_run N sched s)"
  by (induction sched rule: rev_induct) (simp_all add: race_run_def race_step_or_skip_reachable)

lemma race_run_init0_reachable: "race_reachable N (race_run N sched race_init0)"
  unfolding race_init0_def by (rule race_run_reachable) (rule race_reachable_init)

lemma race_reachable_run:
  "race_reachable N s \<Longrightarrow> \<exists>g sched. s = race_run N sched (race_init g)"
proof (induction rule: race_reachable.induct)
  case (race_reachable_init g)
  have "race_init g = race_run N [] (race_init g)"
    by (simp add: race_run_def)
  then show ?case by blast
next
  case (race_reachable_step s a s')
  then obtain g sched where "s = race_run N sched (race_init g)"
    by blast
  with race_reachable_step.hyps(2) have "s' = race_run N (sched @ [a]) (race_init g)"
    by (simp add: race_run_snoc race_step_or_skip_def)
  then show ?case by blast
qed

lemma race_counter_range:
  "race_reachable N s \<Longrightarrow> 0 \<le> race_counter s \<and> race_counter s \<le> int N"
  using race_writes_le [of N s]
  by (drule_tac race_reachable_inv) (simp add: race_inv_def race_counter_inv_def)

lemma race_no_overflow:
  assumes "race_reachable N s"
  shows "0 \<le> race_counter s \<and> race_counter s \<le> int N \<and>
         (race_has_i (race_pc (race_thr s t)) \<longrightarrow>
            0 \<le> race_i (race_thr s t) \<and> race_i (race_thr s t) \<le> int N div 2) \<and>
         (race_pc (race_thr s t) = R11_incr \<longrightarrow> race_i (race_thr s t) + 1 \<le> int N div 2) \<and>
         (race_has_read (race_pc (race_thr s t)) \<longrightarrow>
            0 \<le> race_temp (race_thr s t) \<and> race_temp (race_thr s t) + 1 \<le> int N) \<and>
         (race_pc (race_thr s t) = R25 \<longrightarrow>
            0 \<le> race_temp (race_thr s t) \<and> race_temp (race_thr s t) \<le> int N)"
proof -
  from race_reachable_inv [OF assms]
  have l: "race_loop_ok N (race_thr s T1)" "race_loop_ok N (race_thr s T2)"
    and tm: "race_temp_ok s (race_thr s T1)" "race_temp_ok s (race_thr s T2)"
    by (simp_all add: race_inv_def race_loop_inv_def race_counter_inv_def)
  from l have lt: "race_loop_ok N (race_thr s t)"
    by (cases t) simp_all
  from tm have tt: "race_temp_ok s (race_thr s t)"
    by (cases t) simp_all
  note r = race_completed_le [OF l(1)] race_completed_le [OF l(2)]
  have b: "race_in_body (race_pc (race_thr s t)) \<and> race_pc (race_thr s t) \<noteq> R11_incr
           \<longrightarrow> race_writes s + 1 \<le> int N"
  proof
    assume p: "race_in_body (race_pc (race_thr s t)) \<and> race_pc (race_thr s t) \<noteq> R11_incr"
    with lt have "race_completed (race_thr s t) < int N div 2"
      by (cases "race_pc (race_thr s t)") (simp_all add: race_loop_ok_def race_completed_def)
    with r show "race_writes s + 1 \<le> int N"
      unfolding race_writes_def by (cases t; clarsimp; linarith)
  qed
  have i: "race_has_i (race_pc (race_thr s t)) \<longrightarrow>
            0 \<le> race_i (race_thr s t) \<and> race_i (race_thr s t) \<le> int N div 2"
    and j: "race_pc (race_thr s t) = R11_incr \<longrightarrow> race_i (race_thr s t) + 1 \<le> int N div 2"
    using lt by (auto simp: race_loop_ok_def)
  have k: "race_has_read (race_pc (race_thr s t)) \<longrightarrow>
            0 \<le> race_temp (race_thr s t) \<and> race_temp (race_thr s t) + 1 \<le> int N"
    using tt b by (cases "race_pc (race_thr s t)") (simp_all add: race_temp_ok_def)
  have m: "race_pc (race_thr s t) = R25 \<longrightarrow>
            0 \<le> race_temp (race_thr s t) \<and> race_temp (race_thr s t) \<le> int N"
    using tt b by (auto simp: race_temp_ok_def)
  from race_counter_range [OF assms] i j k m show ?thesis
    by blast
qed












section \<open>The protected program: mutual exclusion\<close>

text \<open>
  C1. In every state of every interleaving of the protected program, at most one thread
  is between the end of its entry wait (lines 26 to 29) and the clearing of its flag
  (line 38); in particular both flags are never set with both threads past the wait.
\<close>

theorem mutual_exclusion:
  assumes "reachable N s"
  shows "\<not> (in_cs (pc (thr s T1)) \<and> in_cs (pc (thr s T2))) \<and>
         \<not> (flag s 0 \<and> flag s 1 \<and> in_cs (pc (thr s T1)) \<and> in_cs (pc (thr s T2)))"
  using reachable_excl [OF assms] by simp

text \<open>
  With both flags set and both threads past their store to \<^verbatim>\<open>turn\<close>, thread 1 is in the
  critical section and thread 2 is not.
\<close>

theorem mutual_exclusion_witness:
  "reachable 2 (run 2 sched_contended init0) \<and>
   flag (run 2 sched_contended init0) 0 \<and> flag (run 2 sched_contended init0) 1 \<and>
   in_cs (pc (thr (run 2 sched_contended init0) T1)) \<and>
   contending (pc (thr (run 2 sched_contended init0) T2)) \<and>
   \<not> in_cs (pc (thr (run 2 sched_contended init0) T2))"
proof -
  have r: "reachable 2 (run 2 sched_contended init0)"
    by (rule run_init0_reachable)
  have "flag (run 2 sched_contended init0) 0" and "flag (run 2 sched_contended init0) 1"
    and "in_cs (pc (thr (run 2 sched_contended init0) T1))"
    and "contending (pc (thr (run 2 sched_contended init0) T2))"
    by code_simp+
  with r mutual_exclusion [OF r] show ?thesis
    by simp
qed

section \<open>The protected program: the final counter\<close>

text \<open>
  C2. In every interleaving of the protected program with an even iteration count \<open>N\<close>,
  once \<^verbatim>\<open>main\<close> has joined both threads \<^verbatim>\<open>counter\<close> equals \<open>N\<close>, each thread having
  completed \<open>N / 2\<close> iterations; for the configured count that is 100000 and 50000.
\<close>

theorem protected_final_counter:
  assumes "reachable N s" and "even N" and "joined s"
  shows "counter s = int N \<and>
         i_l (thr s T1) = int N div 2 \<and> i_l (thr s T2) = int N div 2 \<and>
         (N = ITERATIONS \<longrightarrow>
            counter s = 100000 \<and> i_l (thr s T1) = 50000 \<and> i_l (thr s T2) = 50000)"
proof -
  from assms(2) have "2 * (int N div 2) = int N"
    by presburger
  with joined_counter [OF assms(1,3)] have c: "counter s = int N"
    by simp
  from assms(1,3) have i: "i_l (thr s T1) = int N div 2" "i_l (thr s T2) = int N div 2"
    by (simp_all add: reachable_joined returned_i)
  from c i show ?thesis
    by (simp add: ITERATIONS_def)
qed

theorem protected_final_counter_witness:
  "reachable 2 (run 2 sched_sequential init0) \<and> even (2 :: nat) \<and>
   joined (run 2 sched_sequential init0) \<and> counter (run 2 sched_sequential init0) = 2"
proof -
  have r: "reachable 2 (run 2 sched_sequential init0)"
    by (rule run_init0_reachable)
  have j: "joined (run 2 sched_sequential init0)"
    by code_simp
  have e: "even (2 :: nat)"
    by simp
  from protected_final_counter [OF r e j] r j show ?thesis
    by simp
qed

section \<open>The protected program: entry and exit\<close>

text \<open>
  C3. The entry section of thread \<open>t\<close>, whose \<^verbatim>\<open>id\<close> is \<open>tid_id t\<close> and whose \<^verbatim>\<open>other\<close> is
  \<open>1 - tid_id t\<close>: line 22 stores \<^verbatim>\<open>true\<close> into its own flag and goes to line 23; line 23
  stores \<^verbatim>\<open>other\<close> into \<^verbatim>\<open>turn\<close> and goes to the wait; the wait only loads (line 26 the
  other flag, line 27 \<^verbatim>\<open>turn\<close>), is never blocked, and, left alone, comes back to line 26
  with the state unchanged exactly when the other flag is set and \<^verbatim>\<open>turn\<close> is \<^verbatim>\<open>other\<close>, and
  otherwise arrives at line 32.
\<close>

theorem enter_steps:
  assumes "reachable N s"
  shows "(pc (thr s t) = L22 \<longrightarrow>
            (\<exists>s'. peterson_process N t s = Some s' \<and> pc (thr s' t) = L23 \<and>
                  flag s' = (flag s)(tid_id t := True) \<and>
                  turn s' = turn s \<and> counter s' = counter s)) \<and>
         (pc (thr s t) = L23 \<longrightarrow>
            (\<exists>s'. peterson_process N t s = Some s' \<and> pc (thr s' t) = L26 \<and>
                  flag s' = flag s \<and> turn s' = 1 - tid_id t \<and> counter s' = counter s)) \<and>
         (pc (thr s t) = L26 \<longrightarrow>
            (\<exists>s'. peterson_process N t s = Some s' \<and>
                  pc (thr s' t) = (if flag s (1 - tid_id t) then L27 else L32) \<and>
                  flag s' = flag s \<and> turn s' = turn s \<and> counter s' = counter s)) \<and>
         (pc (thr s t) = L27 \<longrightarrow>
            (\<exists>s'. peterson_process N t s = Some s' \<and>
                  pc (thr s' t) = (if turn s = 1 - tid_id t then L26 else L32) \<and>
                  flag s' = flag s \<and> turn s' = turn s \<and> counter s' = counter s)) \<and>
         (pc (thr s t) = L26 \<and> flag s (1 - tid_id t) \<and> turn s = 1 - tid_id t \<longrightarrow>
            run N [Thread t, Thread t] s = s) \<and>
         (pc (thr s t) = L26 \<and> flag s (1 - tid_id t) \<and> turn s \<noteq> 1 - tid_id t \<longrightarrow>
            pc (thr (run N [Thread t, Thread t] s) t) = L32) \<and>
         (pc (thr s t) = L26 \<and> \<not> flag s (1 - tid_id t) \<longrightarrow>
            pc (thr (run N [Thread t] s) t) = L32)"
proof -
  from reachable_locals [OF assms, of t]
  have l: "has_id (pc (thr s t)) \<longrightarrow> id_l (thr s t) = tid_id t"
    "has_other (pc (thr s t)) \<longrightarrow> other_l (thr s t) = 1 - tid_id t"
    by (simp_all add: locals_ok_def)
  have a: "pc (thr s t) = L22 \<longrightarrow>
            (\<exists>s'. peterson_process N t s = Some s' \<and> pc (thr s' t) = L23 \<and>
                  flag s' = (flag s)(tid_id t := True) \<and>
                  turn s' = turn s \<and> counter s' = counter s)"
    using l by (simp add: step_defs)
  have b: "pc (thr s t) = L23 \<longrightarrow>
            (\<exists>s'. peterson_process N t s = Some s' \<and> pc (thr s' t) = L26 \<and>
                  flag s' = flag s \<and> turn s' = 1 - tid_id t \<and> counter s' = counter s)"
    using l by (simp add: step_defs)
  have c: "pc (thr s t) = L26 \<longrightarrow>
            (\<exists>s'. peterson_process N t s = Some s' \<and>
                  pc (thr s' t) = (if flag s (1 - tid_id t) then L27 else L32) \<and>
                  flag s' = flag s \<and> turn s' = turn s \<and> counter s' = counter s)"
    using l by (simp add: step_defs)
  have d: "pc (thr s t) = L27 \<longrightarrow>
            (\<exists>s'. peterson_process N t s = Some s' \<and>
                  pc (thr s' t) = (if turn s = 1 - tid_id t then L26 else L32) \<and>
                  flag s' = flag s \<and> turn s' = turn s \<and> counter s' = counter s)"
    using l by (simp add: step_defs)
  have e: "pc (thr s t) = L26 \<and> flag s (1 - tid_id t) \<and> turn s = 1 - tid_id t \<longrightarrow>
            run N [Thread t, Thread t] s = s"
    using l spin_round [of s t N] by simp
  have f: "pc (thr s t) = L26 \<and> flag s (1 - tid_id t) \<and> turn s \<noteq> 1 - tid_id t \<longrightarrow>
            pc (thr (run N [Thread t, Thread t] s) t) = L32"
    using l by (simp add: run_def step_or_skip_def step_def step_defs)
  have g: "pc (thr s t) = L26 \<and> \<not> flag s (1 - tid_id t) \<longrightarrow>
            pc (thr (run N [Thread t] s) t) = L32"
    using l by (simp add: run_def step_or_skip_def step_def step_defs)
  from a b c d e f g show ?thesis
    by blast
qed


theorem enter_steps_witness:
  "reachable 2 (run 2 sched_at_entry init0) \<and>
   pc (thr (run 2 sched_at_entry init0) T1) = L22 \<and>
   \<not> flag (run 2 sched_at_entry init0) 0 \<and>
   flag (run 2 (sched_at_entry @ [Thread T1]) init0) 0 \<and>
   pc (thr (run 2 (sched_at_entry @ [Thread T1]) init0) T1) = L23"
proof -
  have r: "reachable 2 (run 2 sched_at_entry init0)"
    by (rule run_init0_reachable)
  have p: "pc (thr (run 2 sched_at_entry init0) T1) = L22"
    by code_simp
  have n: "\<not> flag (run 2 sched_at_entry init0) 0"
    by code_simp
  from enter_steps [OF r, of T1] p
  have "flag (run 2 (sched_at_entry @ [Thread T1]) init0) 0 \<and>
        pc (thr (run 2 (sched_at_entry @ [Thread T1]) init0) T1) = L23"
    by (auto simp: run_snoc step_or_skip_def step_def tid_id_def)
  with r p n show ?thesis
    by simp
qed

text \<open>
  C4. When a thread leaves the wait (its step from line 26 or 27 lands on line 32), then
  in the state it lands in the other flag is clear or \<^verbatim>\<open>turn\<close> is its own \<^verbatim>\<open>id\<close>, where
  \<^verbatim>\<open>other\<close> is \<open>1 - id\<close>.
\<close>

theorem enter_postcondition:
  assumes "reachable N s" and "peterson_process N t s = Some s'"
    and "pc (thr s t) = L26 \<or> pc (thr s t) = L27" and "pc (thr s' t) = L32"
  shows "id_l (thr s' t) = tid_id t \<and> other_l (thr s' t) = 1 - id_l (thr s' t) \<and>
         (\<not> flag s' (other_l (thr s' t)) \<or> turn s' = id_l (thr s' t))"
proof -
  from reachable_locals [OF assms(1), of t] assms(3)
  have l: "id_l (thr s t) = tid_id t" "other_l (thr s t) = 1 - tid_id t"
    by (auto simp: locals_ok_def)
  from assms(3) show ?thesis
  proof
    assume p: "pc (thr s t) = L26"
    with assms(2) have "s' = set_thr t ((thr s t)\<lparr>pc := (if flag s (other_l (thr s t)) then L27 else L32)\<rparr>) s"
      by (simp add: peterson_process_def Let_def)
    with assms(4) l show ?thesis
      by (simp add: set_thr_def split: if_split_asm)
  next
    assume p: "pc (thr s t) = L27"
    with assms(2) have "s' = set_thr t ((thr s t)\<lparr>pc := (if turn s = other_l (thr s t) then L26 else L32)\<rparr>) s"
      by (simp add: peterson_process_def Let_def)
    with assms(4) l reachable_turn [OF assms(1)] show ?thesis
      by (cases t) (auto simp: set_thr_def tid_id_def split: if_split_asm)
  qed
qed

theorem enter_postcondition_witness:
  "reachable 2 (run 2 sched_waiting init0) \<and>
   pc (thr (run 2 sched_waiting init0) T1) = L27 \<and>
   pc (thr (run 2 (sched_waiting @ [Thread T1]) init0) T1) = L32 \<and>
   flag (run 2 (sched_waiting @ [Thread T1]) init0) 1 \<and>
   turn (run 2 (sched_waiting @ [Thread T1]) init0) = 0"
proof -
  have r: "reachable 2 (run 2 sched_waiting init0)"
    by (rule run_init0_reachable)
  have p: "pc (thr (run 2 sched_waiting init0) T1) = L27"
    by code_simp
  have st: "peterson_process 2 T1 (run 2 sched_waiting init0)
            = Some (run 2 (sched_waiting @ [Thread T1]) init0)"
    using p by (auto simp: run_snoc step_or_skip_def step_def peterson_process_None
        split: option.splits)
  have q: "pc (thr (run 2 (sched_waiting @ [Thread T1]) init0) T1) = L32"
    by code_simp
  have e: "flag (run 2 (sched_waiting @ [Thread T1]) init0) 1"
    by code_simp
  from enter_postcondition [OF r st _ q] p q e r show ?thesis
    by (simp add: tid_id_def)
qed

text \<open>
  The property of C4 holds at the step that leaves the wait; it is not kept for the whole
  critical section. Thread 1 enters while \<^verbatim>\<open>flag[1]\<close> is clear and \<^verbatim>\<open>turn\<close> is 1; thread 2
  then sets \<^verbatim>\<open>flag[1]\<close>, and has not stored \<^verbatim>\<open>turn\<close> yet.
\<close>

lemma enter_postcondition_not_stable:
  "reachable 2 (run 2 sched_early init0) \<and>
   pc (thr (run 2 sched_early init0) T1) = L32 \<and>
   id_l (thr (run 2 sched_early init0) T1) = 0 \<and>
   other_l (thr (run 2 sched_early init0) T1) = 1 \<and>
   flag (run 2 sched_early init0) 1 \<and> turn (run 2 sched_early init0) = 1"
proof -
  have "pc (thr (run 2 sched_early init0) T1) = L32"
    and "id_l (thr (run 2 sched_early init0) T1) = 0"
    and "other_l (thr (run 2 sched_early init0) T1) = 1"
    and "flag (run 2 sched_early init0) 1" and "turn (run 2 sched_early init0) = 1"
    by code_simp+
  then show ?thesis
    by (simp add: run_init0_reachable)
qed

text \<open>
  C5. \<^verbatim>\<open>turn\<close> starts at 0, is 0 or 1 in every reachable state, and the store of line 23
  writes \<open>1 - id\<close> with \<^verbatim>\<open>id\<close> 0 or 1.
\<close>

theorem turn_in_range:
  assumes "reachable N s"
  shows "turn (init g) = 0 \<and> (turn s = 0 \<or> turn s = 1) \<and>
         (pc (thr s t) = L23 \<longrightarrow>
            (\<exists>s'. peterson_process N t s = Some s' \<and> turn s' = other_l (thr s t) \<and>
                  other_l (thr s t) = 1 - id_l (thr s t) \<and>
                  (id_l (thr s t) = 0 \<or> id_l (thr s t) = 1) \<and>
                  (turn s' = 0 \<or> turn s' = 1)))"
proof -
  from assms have "turn s = 0 \<or> turn s = 1"
    by (drule_tac reachable_inv) (simp add: inv_def turn_inv_def)
  moreover have "turn (init g) = 0"
    by (simp add: init_def)
  moreover from reachable_locals [OF assms, of t]
  have "pc (thr s t) = L23 \<longrightarrow>
            (\<exists>s'. peterson_process N t s = Some s' \<and> turn s' = other_l (thr s t) \<and>
                  other_l (thr s t) = 1 - id_l (thr s t) \<and>
                  (id_l (thr s t) = 0 \<or> id_l (thr s t) = 1) \<and>
                  (turn s' = 0 \<or> turn s' = 1))"
    by (cases t) (simp_all add: locals_ok_def id_defs step_defs)
  ultimately show ?thesis
    by blast
qed

theorem turn_in_range_witness:
  "reachable 2 (run 2 sched_at_turn init0) \<and>
   pc (thr (run 2 sched_at_turn init0) T1) = L23 \<and>
   (turn (run 2 sched_at_turn init0) = 0 \<or> turn (run 2 sched_at_turn init0) = 1) \<and>
   turn (run 2 (sched_at_turn @ [Thread T1]) init0) = 1"
proof -
  have r: "reachable 2 (run 2 sched_at_turn init0)"
    by (rule run_init0_reachable)
  have p: "pc (thr (run 2 sched_at_turn init0) T1) = L23"
    and "turn (run 2 (sched_at_turn @ [Thread T1]) init0) = 1"
    by code_simp+
  with turn_in_range [OF r, where g = "\<lambda>_. zero_thread" and t = T1] r show ?thesis
    by auto
qed

text \<open>
  C6. The exit section (line 38) of thread \<open>t\<close> clears \<^verbatim>\<open>flag[id]\<close> and changes nothing
  else but the thread's control point: the other flag, \<^verbatim>\<open>turn\<close>, \<^verbatim>\<open>counter\<close>, the locals
  of \<^verbatim>\<open>main\<close>, the console and the other thread stay as they are.
\<close>

theorem exit_frame:
  assumes "reachable N s" and "pc (thr s t) = L38"
  shows "\<exists>s'. peterson_process N t s = Some s' \<and>
              id_l (thr s t) = tid_id t \<and> other_l (thr s t) = 1 - tid_id t \<and>
              flag s' = (flag s)(tid_id t := False) \<and>
              flag s' (1 - tid_id t) = flag s (1 - tid_id t) \<and>
              turn s' = turn s \<and> counter s' = counter s \<and>
              id0 s' = id0 s \<and> id1 s' = id1 s \<and> mpc s' = mpc s \<and> out s' = out s \<and>
              thr s' = (thr s)(t := (thr s t)\<lparr>pc := L20_incr\<rparr>)"
  using reachable_locals [OF assms(1), of t] assms(2)
  by (cases t) (simp_all add: locals_ok_def id_defs step_defs)

theorem exit_frame_witness:
  "reachable 2 (run 2 sched_at_exit init0) \<and>
   pc (thr (run 2 sched_at_exit init0) T1) = L38 \<and>
   flag (run 2 sched_at_exit init0) 0 \<and>
   \<not> flag (run 2 (sched_at_exit @ [Thread T1]) init0) 0 \<and>
   counter (run 2 (sched_at_exit @ [Thread T1]) init0) = counter (run 2 sched_at_exit init0)"
proof -
  have r: "reachable 2 (run 2 sched_at_exit init0)"
    by (rule run_init0_reachable)
  have p: "pc (thr (run 2 sched_at_exit init0) T1) = L38"
    by code_simp
  have "flag (run 2 sched_at_exit init0) 0"
    by code_simp
  moreover from exit_frame [OF r p]
  have "\<not> flag (run 2 (sched_at_exit @ [Thread T1]) init0) 0 \<and>
    counter (run 2 (sched_at_exit @ [Thread T1]) init0) = counter (run 2 sched_at_exit init0)"
    by (auto simp: run_snoc step_or_skip_def step_def tid_id_def)
  ultimately show ?thesis
    using r p by simp
qed

section \<open>The protected program: the harness\<close>

text \<open>
  C10. \<^verbatim>\<open>main\<close> creates the two threads at lines 54 and 55 and nowhere else, thread 1
  with \<^verbatim>\<open>&id0\<close> and thread 2 with \<^verbatim>\<open>&id1\<close>, which hold 0 and 1, so the threads read the
  ids 0 and 1; and when \<^verbatim>\<open>main\<close> is at line 62 or later, where it reads and prints
  \<^verbatim>\<open>counter\<close>, both threads have returned.
\<close>

theorem harness_contract:
  assumes "reachable N s"
  shows "(pc (thr s T1) = NotCreated \<longleftrightarrow> mpc s \<in> {M50, M51, M52, M54}) \<and>
         (pc (thr s T2) = NotCreated \<longleftrightarrow> mpc s \<in> {M50, M51, M52, M54, M55}) \<and>
         id0 s = 0 \<and> id1 s = 1 \<and>
         (pc (thr s T1) \<noteq> NotCreated \<longrightarrow> arg (thr s T1) = Addr_id0) \<and>
         (pc (thr s T2) \<noteq> NotCreated \<longrightarrow> arg (thr s T2) = Addr_id1) \<and>
         (has_id (pc (thr s T1)) \<longrightarrow> id_l (thr s T1) = 0) \<and>
         (has_id (pc (thr s T2)) \<longrightarrow> id_l (thr s T2) = 1) \<and>
         (mpc s \<in> {M62, M64, M71} \<longrightarrow>
            pc (thr s T1) = Returned \<and> pc (thr s T2) = Returned)"
  using reachable_inv [OF assms]
  by (simp add: inv_def main_inv_def locals_inv_def locals_ok_def id_defs)

theorem harness_contract_witness:
  "reachable 2 (run 2 sched_sequential init0) \<and>
   mpc (run 2 sched_sequential init0) = M71 \<and>
   id_l (thr (run 2 sched_sequential init0) T1) = 0 \<and>
   id_l (thr (run 2 sched_sequential init0) T2) = 1 \<and>
   pc (thr (run 2 sched_sequential init0) T1) = Returned \<and>
   pc (thr (run 2 sched_sequential init0) T2) = Returned"
proof -
  have r: "reachable 2 (run 2 sched_sequential init0)"
    by (rule run_init0_reachable)
  have m: "mpc (run 2 sched_sequential init0) = M71"
    by code_simp
  from harness_contract [OF r] r m show ?thesis
    by auto
qed

section \<open>The baseline: the counter never exceeds the iteration count\<close>

text \<open>
  C7. In every state of every interleaving of the baseline with iteration count \<open>N\<close>,
  \<^verbatim>\<open>counter\<close> is at most \<open>N\<close>; in particular once \<^verbatim>\<open>main\<close> has joined both threads and
  reads it.
\<close>

theorem race_counter_bound:
  assumes "race_reachable N s"
  shows "race_counter s \<le> int N \<and> (race_joined s \<longrightarrow> race_counter s \<le> int N)"
  using race_counter_range [OF assms] by simp


theorem race_counter_bound_witness:
  "race_reachable 2 (race_run 2 race_sched_lost race_init0) \<and>
   race_joined (race_run 2 race_sched_lost race_init0) \<and>
   race_counter (race_run 2 race_sched_lost race_init0) = 1 \<and>
   race_counter (race_run 2 race_sched_lost race_init0) \<le> 2"
proof -
  have r: "race_reachable 2 (race_run 2 race_sched_lost race_init0)"
    by (rule race_run_init0_reachable)
  have "race_joined (race_run 2 race_sched_lost race_init0)"
    and "race_counter (race_run 2 race_sched_lost race_init0) = 1"
    by code_simp+
  with race_counter_bound [OF r] r show ?thesis
    by simp
qed

section \<open>Both programs: verdicts and workload\<close>





end
